theory Spec2Isabelle
  imports Complex_Main "HOL-Library.Log_Nat" "HOL-Library.Sublist"
begin

section \<open>Python values used by \<open>handwrite_app.py\<close>\<close>

text \<open>
  A Python \<open>str\<close> is a sequence of Unicode code points and \<open>len\<close> counts code points,
  so a string is modelled as the list of its code points. The Chinese literals of the
  source are written out code point by code point; ASCII literals go through \<open>ascii\<close>.
\<close>

type_synonym pystr = "nat list"

definition ascii :: "string \<Rightarrow> pystr" where
  "ascii s = map of_char s"

text \<open>
  Exceptions: the class and the text that \<open>str(e)\<close> returns. Only instances of
  \<open>Exception\<close> are modelled (what \<open>except Exception\<close> catches).
\<close>

datatype exn_class = IndexError | KeyError | ZeroDivisionError | OverflowError | OtherError

datatype exn = Exn exn_class pystr

fun str_exn :: "exn \<Rightarrow> pystr" where
  "str_exn (Exn c m) = m"

text \<open>\<open>xs[i]\<close> on a list: a negative index counts from the end, out of range raises.\<close>

definition py_getitem :: "'a list \<Rightarrow> int \<Rightarrow> exn + 'a" where
  "py_getitem xs i =
     (if 0 \<le> i \<and> i < int (length xs) then Inr (xs ! nat i)
      else if - int (length xs) \<le> i \<and> i < 0 then Inr (xs ! nat (i + int (length xs)))
      else Inl (Exn IndexError (ascii ''list index out of range'')))"


section \<open>\<open>PreviewManager\<close>\<close>

text \<open>
  The fields the page navigation reads and writes. The remaining attributes of the class
  (\<open>last_update\<close>, \<open>throttle_delay\<close>, \<open>cached_images\<close>, \<open>last_settings\<close>, \<open>last_text\<close>)
  are not touched by any method below; they live in the extension part of the record, over
  which every operation is polymorphic.
\<close>

record 'p PreviewManager =
  current_page :: int
  pages :: "'p list"

definition PreviewManager_init :: "'p PreviewManager" where
  "PreviewManager_init = \<lparr>current_page = 0, pages = []\<rparr>"

definition set_pages :: "'p list \<Rightarrow> ('p, 'z) PreviewManager_scheme \<Rightarrow> ('p, 'z) PreviewManager_scheme" where
  "set_pages ps m = m\<lparr>pages := ps, current_page := 0\<rparr>"

definition get_current_page :: "('p, 'z) PreviewManager_scheme \<Rightarrow> exn + 'p option" where
  "get_current_page m =
     (if pages m \<noteq> [] then
        (case py_getitem (pages m) (current_page m) of
           Inl e \<Rightarrow> Inl e
         | Inr p \<Rightarrow> Inr (Some p))
      else Inr None)"

definition next_page :: "('p, 'z) PreviewManager_scheme \<Rightarrow> bool \<times> ('p, 'z) PreviewManager_scheme" where
  "next_page m =
     (if current_page m < int (length (pages m)) - 1
      then (True, m\<lparr>current_page := current_page m + 1\<rparr>)
      else (False, m))"

definition prev_page :: "('p, 'z) PreviewManager_scheme \<Rightarrow> bool \<times> ('p, 'z) PreviewManager_scheme" where
  "prev_page m =
     (if current_page m > 0
      then (True, m\<lparr>current_page := current_page m - 1\<rparr>)
      else (False, m))"

definition go_to_page :: "int \<Rightarrow> ('p, 'z) PreviewManager_scheme \<Rightarrow> bool \<times> ('p, 'z) PreviewManager_scheme" where
  "go_to_page page_num m =
     (if 0 \<le> page_num \<and> page_num < int (length (pages m))
      then (True, m\<lparr>current_page := page_num\<rparr>)
      else (False, m))"

definition get_total_pages :: "('p, 'z) PreviewManager_scheme \<Rightarrow> int" where
  "get_total_pages m = int (length (pages m))"

text \<open>A caller's use of the manager: any sequence of the four mutating methods.\<close>

datatype 'p pm_call = Set_pages "'p list" | Next_page | Prev_page | Go_to_page int

fun do_call :: "'p pm_call \<Rightarrow> ('p, 'z) PreviewManager_scheme \<Rightarrow> ('p, 'z) PreviewManager_scheme" where
  "do_call (Set_pages ps) m = set_pages ps m"
| "do_call Next_page m = snd (next_page m)"
| "do_call Prev_page m = snd (prev_page m)"
| "do_call (Go_to_page n) m = snd (go_to_page n m)"

definition pm_calls :: "'p pm_call list \<Rightarrow> ('p, 'z) PreviewManager_scheme \<Rightarrow> ('p, 'z) PreviewManager_scheme" where
  "pm_calls cs m = fold do_call cs m"

text \<open>The index invariant: inside the page list when there is one, and 0 when there is none.\<close>

definition page_index_ok :: "('p, 'z) PreviewManager_scheme \<Rightarrow> bool" where
  "page_index_ok m =
     (if pages m = [] then current_page m = 0
      else 0 \<le> current_page m \<and> current_page m \<le> int (length (pages m)) - 1)"


section \<open>Python floats\<close>

text \<open>
  A Python \<open>float\<close> is an IEEE 754 binary64 number. A finite one is the rational it
  denotes; every operation computes the exact rational result and rounds it to the nearest
  representable number, ties to the even significand. The significand has 53 bits; below
  \<open>2 ^ (- 1022)\<close> the spacing stays \<open>2 ^ (- 1074)\<close> (subnormal numbers); a rounded
  magnitude of \<open>2 ^ 1024\<close> or more is an overflow.
\<close>

definition round_half_even :: "rat \<Rightarrow> int" where
  "round_half_even x =
     (let f = \<lfloor>x\<rfloor>; d = x - of_int f
      in if d < 1/2 then f else if 1/2 < d then f + 1 else if even f then f else f + 1)"

text \<open>For \<open>x > 0\<close>, the \<open>e\<close> with \<open>2 ^ e \<le> x < 2 ^ (e + 1)\<close>.\<close>

definition float_exponent :: "rat \<Rightarrow> int" where
  "float_exponent x =
     (let d = bitlen (fst (quotient_of x)) - bitlen (snd (quotient_of x))
      in if 2 powi d \<le> x then d else d - 1)"

definition ulp_exponent :: "rat \<Rightarrow> int" where
  "ulp_exponent x = max (float_exponent x - 52) (- 1074)"

definition round_to :: "int \<Rightarrow> rat \<Rightarrow> rat" where
  "round_to e x = of_int (round_half_even (x / 2 powi e)) * 2 powi e"

definition round_binary64 :: "rat \<Rightarrow> rat" where
  "round_binary64 x =
     (if x = 0 then 0
      else if 0 < x then round_to (ulp_exponent x) x
      else - round_to (ulp_exponent (- x)) (- x))"

datatype pyfloat = Finite rat | PosInf | NegInf

definition binary64 :: "rat \<Rightarrow> pyfloat" where
  "binary64 x =
     (let r = round_binary64 x
      in if 2 ^ 1024 \<le> r then PosInf else if r \<le> - (2 ^ 1024) then NegInf else Finite r)"

definition raise :: "exn_class \<Rightarrow> string \<Rightarrow> exn + 'a" where
  "raise c m = Inl (Exn c (ascii m))"

text \<open>\<open>a // b\<close> and \<open>a / b\<close> on two \<open>int\<close>s; \<open>/\<close> is correctly rounded and raises on overflow.\<close>

definition py_floordiv :: "int \<Rightarrow> int \<Rightarrow> exn + int" where
  "py_floordiv a b =
     (if b = 0 then raise ZeroDivisionError ''integer division or modulo by zero''
      else Inr (a div b))"

definition py_truediv :: "int \<Rightarrow> int \<Rightarrow> exn + rat" where
  "py_truediv a b =
     (if b = 0 then raise ZeroDivisionError ''division by zero''
      else case binary64 (of_int a / of_int b) of
             Finite r \<Rightarrow> Inr r
           | _ \<Rightarrow> raise OverflowError ''integer division result too large for a float'')"

text \<open>An \<open>int\<close> operand of a float operation is converted to \<open>float\<close> first.\<close>

definition float_of_int :: "int \<Rightarrow> exn + rat" where
  "float_of_int i =
     (case binary64 (of_int i) of
        Finite r \<Rightarrow> Inr r
      | _ \<Rightarrow> raise OverflowError ''int too large to convert to float'')"

definition float_times_int :: "rat \<Rightarrow> int \<Rightarrow> exn + pyfloat" where
  "float_times_int x n =
     (case float_of_int n of Inl e \<Rightarrow> Inl e | Inr y \<Rightarrow> Inr (binary64 (x * y)))"

definition int_times_float :: "int \<Rightarrow> rat \<Rightarrow> exn + pyfloat" where
  "int_times_float n y =
     (case float_of_int n of Inl e \<Rightarrow> Inl e | Inr x \<Rightarrow> Inr (binary64 (x * y)))"

text \<open>\<open>int(f)\<close> truncates towards zero and raises on an infinity.\<close>

fun py_int :: "pyfloat \<Rightarrow> exn + int" where
  "py_int (Finite x) = Inr (if 0 \<le> x then \<lfloor>x\<rfloor> else \<lceil>x\<rceil>)"
| "py_int PosInf = raise OverflowError ''cannot convert float infinity to integer''"
| "py_int NegInf = raise OverflowError ''cannot convert float infinity to integer''"


section \<open>\<open>WorkerThread\<close>\<close>

record 't WorkerThread =
  self_text :: pystr
  template :: 't
  is_cancelled :: bool

definition WorkerThread_init :: "pystr \<Rightarrow> 't \<Rightarrow> 't WorkerThread" where
  "WorkerThread_init txt tpl = \<lparr>self_text = txt, template = tpl, is_cancelled = False\<rparr>"

definition cancel :: "('t, 'z) WorkerThread_scheme \<Rightarrow> ('t, 'z) WorkerThread_scheme" where
  "cancel w = w\<lparr>is_cancelled := True\<rparr>"

text \<open>The three Qt signals of the class; an emission is a value of this type.\<close>

datatype 'p signal = ProgressChanged int | ResultReady "'p list" | ErrorOccurred pystr

text \<open>
  The external renderer \<open>handwrite(text, template)\<close> either raises or returns a generator.
  A generator is what the \<open>for\<close> loop sees of it: each \<open>next\<close> yields a page, ends the
  iteration, or raises. The renderer is a parameter \<open>hw\<close> of the model.
\<close>

datatype 'p pagegen = StopIteration | Yield 'p "'p pagegen" | Raises exn

type_synonym ('p, 't) renderer = "pystr \<Rightarrow> 't \<Rightarrow> exn + 'p pagegen"

text \<open>
  The state of one call of \<open>run\<close>: the thread object, the locals \<open>result\<close> and
  \<open>chars_processed\<close>, the signals emitted so far, the calls made to the renderer, and
  what the interactive thread will do: \<open>pending\<close> has one entry for each future read of
  \<open>is_cancelled\<close>, True when \<open>cancel()\<close> has been called since the read before.
\<close>

record ('p, 't) run_state =
  self :: "'t WorkerThread"
  result :: "'p list"
  chars_processed :: int
  emitted :: "'p signal list"
  invoked :: "(pystr \<times> 't) list"
  pending :: "bool list"

definition emit :: "'p signal \<Rightarrow> ('p, 't) run_state \<Rightarrow> ('p, 't) run_state" where
  "emit sg s = s\<lparr>emitted := emitted s @ [sg]\<rparr>"

text \<open>The interactive thread's \<open>cancel()\<close> calls that happen before the next read of the flag.\<close>

definition interleave :: "('p, 't) run_state \<Rightarrow> ('p, 't) run_state" where
  "interleave s =
     (case pending s of
        [] \<Rightarrow> s
      | c # cs \<Rightarrow> s\<lparr>self := (if c then cancel (self s) else self s), pending := cs\<rparr>)"

definition placeholder_text :: pystr where
  "placeholder_text = [39044, 35272, 25991, 26412, 31034, 20363]"

definition clarified_message :: pystr where
  "clarified_message =
     [23383, 20307, 22823, 23567, 19982, 34892, 38388, 36317, 35774, 32622, 19981, 21512,
      29702, 12290, 35831, 30830, 20445, 34892, 38388, 36317, 22823, 20110, 23383, 20307,
      22823, 23567, 12290]"

text \<open>Lines 142-143: an empty text is replaced before anything else is done.\<close>

definition substitute_text :: "'t WorkerThread \<Rightarrow> 't WorkerThread" where
  "substitute_text w = (if self_text w = [] then w\<lparr>self_text := placeholder_text\<rparr> else w)"

text \<open>Line 150: \<open>progress_step = max(1, text_length // 100)\<close>.\<close>

definition progress_step :: "int \<Rightarrow> exn + int" where
  "progress_step text_length =
     (case py_floordiv text_length 100 of Inl e \<Rightarrow> Inl e | Inr q \<Rightarrow> Inr (max 1 q))"

text \<open>Line 161: \<open>progress = min(95, int(chars_processed / text_length * 100))\<close>.\<close>

definition progress_value :: "int \<Rightarrow> int \<Rightarrow> exn + int" where
  "progress_value chars text_length =
     (case py_truediv chars text_length of
        Inl e \<Rightarrow> Inl e
      | Inr q \<Rightarrow>
          (case float_times_int q 100 of
             Inl e \<Rightarrow> Inl e
           | Inr f \<Rightarrow> (case py_int f of Inl e \<Rightarrow> Inl e | Inr n \<Rightarrow> Inr (min 95 n))))"

text \<open>
  Lines 153-162, the loop over the generator. \<open>next\<close> runs first; the flag is read after a
  page has been produced, and a set flag leaves the loop with that page dropped.
\<close>

fun consume :: "int \<Rightarrow> int \<Rightarrow> 'p pagegen \<Rightarrow> ('p, 't) run_state \<Rightarrow> (exn + unit) \<times> ('p, 't) run_state" where
  "consume text_length step StopIteration s = (Inr (), s)"
| "consume text_length step (Raises e) s = (Inl e, s)"
| "consume text_length step (Yield page rest) s =
     (let s1 = interleave s
      in if is_cancelled (self s1) then (Inr (), s1)
         else
           let s2 = s1\<lparr>result := result s1 @ [page]\<rparr>;
               s3 = s2\<lparr>chars_processed := chars_processed s2 + step\<rparr>
           in case progress_value (chars_processed s3) text_length of
                Inl e \<Rightarrow> (Inl e, s3)
              | Inr progress \<Rightarrow> consume text_length step rest (emit (ProgressChanged progress) s3))"

text \<open>Lines 140-162: the \<open>try\<close> block up to the end of the loop.\<close>

definition run_loop :: "('p, 't) renderer \<Rightarrow> bool list \<Rightarrow> 't WorkerThread \<Rightarrow> (exn + unit) \<times> ('p, 't) run_state" where
  "run_loop hw env w =
     (let s0 = \<lparr>self = substitute_text w, result = [], chars_processed = 0, emitted = [],
                invoked = [], pending = env\<rparr>;
          s1 = s0\<lparr>invoked := [(self_text (self s0), template (self s0))]\<rparr>
      in case hw (self_text (self s1)) (template (self s1)) of
           Inl e \<Rightarrow> (Inl e, s1)
         | Inr page_gen \<Rightarrow>
             (let text_length = int (length (self_text (self s1)))
              in case progress_step text_length of
                   Inl e \<Rightarrow> (Inl e, s1)
                 | Inr step \<Rightarrow> consume text_length step page_gen s1))"

text \<open>Lines 164-166: after the loop the flag is read once more.\<close>

definition run_try :: "('p, 't) renderer \<Rightarrow> bool list \<Rightarrow> 't WorkerThread \<Rightarrow> (exn + unit) \<times> ('p, 't) run_state" where
  "run_try hw env w =
     (case run_loop hw env w of
        (Inl e, s) \<Rightarrow> (Inl e, s)
      | (Inr u, s) \<Rightarrow>
          (let s1 = interleave s
           in if \<not> is_cancelled (self s1)
              then (Inr (), emit (ResultReady (result s1)) (emit (ProgressChanged 100) s1))
              else (Inr (), s1)))"

text \<open>Lines 168-173: the handler of \<open>except Exception as e\<close>.\<close>

definition error_message :: "exn \<Rightarrow> pystr" where
  "error_message e =
     (if sublist (ascii ''font.size'') (str_exn e) \<and> sublist (ascii ''line_spacing'') (str_exn e)
      then clarified_message else str_exn e)"

definition run :: "('p, 't) renderer \<Rightarrow> bool list \<Rightarrow> 't WorkerThread \<Rightarrow> ('p, 't) run_state" where
  "run hw env w =
     (case run_try hw env w of
        (Inl e, s) \<Rightarrow> emit (ErrorOccurred (error_message e)) s
      | (Inr u, s) \<Rightarrow> s)"


text \<open>The signals one call of \<open>run\<close> emits, in the order of emission.\<close>

definition signals :: "('p, 't) renderer \<Rightarrow> bool list \<Rightarrow> 't WorkerThread \<Rightarrow> 'p signal list" where
  "signals hw env w = emitted (run hw env w)"

text \<open>What a subscriber sees of a run, channel by channel.\<close>

fun progress_values :: "'p signal list \<Rightarrow> int list" where
  "progress_values [] = []"
| "progress_values (ProgressChanged n # sgs) = n # progress_values sgs"
| "progress_values (sg # sgs) = progress_values sgs"

fun results :: "'p signal list \<Rightarrow> 'p list list" where
  "results [] = []"
| "results (ResultReady ps # sgs) = ps # results sgs"
| "results (sg # sgs) = results sgs"

fun errors :: "'p signal list \<Rightarrow> pystr list" where
  "errors [] = []"
| "errors (ErrorOccurred m # sgs) = m # errors sgs"
| "errors (sg # sgs) = errors sgs"

fun is_progress :: "'p signal \<Rightarrow> bool" where
  "is_progress (ProgressChanged n) = True"
| "is_progress sg = False"

text \<open>The pages a generator yields before it ends or raises.\<close>

fun yielded :: "'p pagegen \<Rightarrow> 'p list" where
  "yielded StopIteration = []"
| "yielded (Raises e) = []"
| "yielded (Yield page rest) = page # yielded rest"

text \<open>A generator that yields the given pages and then ends as \<open>g\<close> does.\<close>

fun yields_then :: "'p list \<Rightarrow> 'p pagegen \<Rightarrow> 'p pagegen" where
  "yields_then [] g = g"
| "yields_then (page # ps) g = Yield page (yields_then ps g)"


section \<open>\<open>MainWindow.create_template\<close>\<close>

text \<open>
  The settings dictionary as \<open>get_current_settings\<close> builds it: the font size is the
  value of a \<open>QSpinBox\<close> (an \<open>int\<close>), the margins are \<open>int\<close>s and the perturbations
  \<open>float\<close>s, both keyed by their Chinese labels.
\<close>

record settings =
  settings_font :: pystr
  font_size :: int
  margins :: "pystr \<rightharpoonup> int"
  distortions :: "pystr \<rightharpoonup> rat"

definition py_lookup :: "(pystr \<rightharpoonup> 'v) \<Rightarrow> pystr \<Rightarrow> exn + 'v" where
  "py_lookup d k = (case d k of None \<Rightarrow> Inl (Exn KeyError ([39] @ k @ [39])) | Some v \<Rightarrow> Inr v)"

definition and_then :: "exn + 'a \<Rightarrow> ('a \<Rightarrow> exn + 'b) \<Rightarrow> exn + 'b" where
  "and_then r f = (case r of Inl e \<Rightarrow> Inl e | Inr v \<Rightarrow> f v)"

text \<open>The arguments of handright's \<open>Template\<close>, as the call at the end of the method passes them.\<close>

record ('bg, 'f) Template =
  background :: 'bg
  font :: 'f
  line_spacing :: int
  word_spacing :: int
  left_margin :: int
  top_margin :: int
  right_margin :: int
  bottom_margin :: int
  word_spacing_sigma :: rat
  line_spacing_sigma :: rat
  font_size_sigma :: rat
  perturb_x_sigma :: rat
  perturb_y_sigma :: rat
  perturb_theta_sigma :: rat

definition key_line_spacing :: pystr where "key_line_spacing = [34892, 38388, 36317]"
definition key_word_spacing :: pystr where "key_word_spacing = [23383, 38388, 36317]"
definition key_left_margin :: pystr where "key_left_margin = [24038, 36793, 36317]"
definition key_top_margin :: pystr where "key_top_margin = [19978, 36793, 36317]"
definition key_right_margin :: pystr where "key_right_margin = [21491, 36793, 36317]"
definition key_bottom_margin :: pystr where "key_bottom_margin = [19979, 36793, 36317]"
definition key_word_spacing_sigma :: pystr where
  "key_word_spacing_sigma = [23383, 38388, 36317, 25200, 21160]"
definition key_line_spacing_sigma :: pystr where
  "key_line_spacing_sigma = [34892, 38388, 36317, 25200, 21160]"
definition key_font_size_sigma :: pystr where
  "key_font_size_sigma = [23383, 20307, 22823, 23567, 25200, 21160]"
definition key_perturb_x_sigma :: pystr where
  "key_perturb_x_sigma = [27178, 21521, 20559, 31227, 25200, 21160]"
definition key_perturb_y_sigma :: pystr where
  "key_perturb_y_sigma = [32437, 21521, 20559, 31227, 25200, 21160]"
definition key_perturb_theta_sigma :: pystr where
  "key_perturb_theta_sigma = [26059, 36716, 35282, 24230, 25200, 21160]"

definition template_failed_prefix :: pystr where
  "template_failed_prefix = [21019, 24314, 27169, 26495, 22833, 36133, 58, 32]"

text \<open>
  The adjustment in the \<open>try\<close> block: \<open>if line_spacing <= font_size: line_spacing =
  int(font_size * 1.5)\<close>. The two updates of the user interface in that branch (the spin
  box and the status bar) have no part in the template and are left out.
\<close>

definition adjusted_line_spacing :: "int \<Rightarrow> int \<Rightarrow> exn + int" where
  "adjusted_line_spacing fs ls =
     (if ls \<le> fs then and_then (int_times_float fs (3/2)) py_int else Inr ls)"

text \<open>
  The \<open>try\<close> block of \<open>create_template\<close>. The background image and the font path, both
  found before the block is entered, and PIL's \<open>ImageFont.truetype\<close> are parameters. The
  keyword arguments are evaluated in the order they are written.
\<close>

definition build_template ::
    "(pystr \<Rightarrow> int \<Rightarrow> exn + 'f) \<Rightarrow> 'bg \<Rightarrow> pystr \<Rightarrow> settings \<Rightarrow> exn + ('bg, 'f) Template" where
  "build_template truetype bg font_path st =
     and_then (py_lookup (margins st) key_line_spacing) (\<lambda>ls0.
     and_then (adjusted_line_spacing (font_size st) ls0) (\<lambda>ls.
     and_then (truetype font_path (font_size st)) (\<lambda>fnt.
     and_then (py_lookup (margins st) key_word_spacing) (\<lambda>ws.
     and_then (py_lookup (margins st) key_left_margin) (\<lambda>lm.
     and_then (py_lookup (margins st) key_top_margin) (\<lambda>tm.
     and_then (py_lookup (margins st) key_right_margin) (\<lambda>rm.
     and_then (py_lookup (margins st) key_bottom_margin) (\<lambda>bm.
     and_then (py_lookup (distortions st) key_word_spacing_sigma) (\<lambda>wss.
     and_then (py_lookup (distortions st) key_line_spacing_sigma) (\<lambda>lss.
     and_then (py_lookup (distortions st) key_font_size_sigma) (\<lambda>fss.
     and_then (py_lookup (distortions st) key_perturb_x_sigma) (\<lambda>pxs.
     and_then (py_lookup (distortions st) key_perturb_y_sigma) (\<lambda>pys.
     and_then (py_lookup (distortions st) key_perturb_theta_sigma) (\<lambda>pts.
       Inr \<lparr>background = bg, font = fnt, line_spacing = ls, word_spacing = ws,
            left_margin = lm, top_margin = tm, right_margin = rm, bottom_margin = bm,
            word_spacing_sigma = wss, line_spacing_sigma = lss, font_size_sigma = fss,
            perturb_x_sigma = pxs, perturb_y_sigma = pys,
            perturb_theta_sigma = pts\<rparr>))))))))))))))"

text \<open>The handler: \<open>except Exception as e: raise Exception(f"...: {str(e)}")\<close>.\<close>

definition create_template ::
    "(pystr \<Rightarrow> int \<Rightarrow> exn + 'f) \<Rightarrow> 'bg \<Rightarrow> pystr \<Rightarrow> settings \<Rightarrow> exn + ('bg, 'f) Template" where
  "create_template truetype bg font_path st =
     (case build_template truetype bg font_path st of
        Inl e \<Rightarrow> Inl (Exn OtherError (template_failed_prefix @ str_exn e))
      | Inr t \<Rightarrow> Inr t)"


section \<open>\<open>PreviewWidget\<close>\<close>

text \<open>
  A worker is a \<open>QThread\<close>: besides its own attributes it has the thread's run status.
  Thread objects live in a heap, the list of the threads created so far, and are referred
  to by their position in it.
\<close>

record 't QWorkerThread = "'t WorkerThread" +
  isRunning :: bool

type_synonym 't heap = "'t QWorkerThread list"

text \<open>Calls into Qt that only change what is displayed are recorded, not interpreted.\<close>

datatype ui_call = Warning pystr | Show_current_page | Update_navigation | Set_page_spin_maximum int

record 'p PreviewWidget =
  preview_manager :: "'p PreviewManager"
  worker :: "nat option"
  ui_calls :: "ui_call list"

definition PreviewWidget_init :: "'p PreviewWidget" where
  "PreviewWidget_init = \<lparr>preview_manager = PreviewManager_init, worker = None, ui_calls = []\<rparr>"

definition ui :: "ui_call \<Rightarrow> 'p PreviewWidget \<Rightarrow> 'p PreviewWidget" where
  "ui c pw = pw\<lparr>ui_calls := ui_calls pw @ [c]\<rparr>"

definition no_preview_message :: pystr where
  "no_preview_message =
     [26410, 33021, 29983, 25104, 39044, 35272, 22270, 20687, 65292, 21487, 33021, 26159,
      21442, 25968, 35774, 32622, 19981, 21512, 29702]"

text \<open>\<open>handle_preview_error\<close>; \<open>error_image\<close> stands for the picture PIL draws of the message.\<close>

definition handle_preview_error :: "(pystr \<Rightarrow> 'p) \<Rightarrow> pystr \<Rightarrow> 'p PreviewWidget \<Rightarrow> 'p PreviewWidget" where
  "handle_preview_error error_image error_msg pw =
     (let pw1 = ui (Warning error_msg) pw
      in if pages (preview_manager pw1) = []
         then
           let pw2 = pw1\<lparr>preview_manager := set_pages [error_image error_msg] (preview_manager pw1)\<rparr>
           in ui Update_navigation (ui Show_current_page pw2)
         else pw1)"

definition handle_preview_result :: "(pystr \<Rightarrow> 'p) \<Rightarrow> 'p list \<Rightarrow> 'p PreviewWidget \<Rightarrow> 'p PreviewWidget" where
  "handle_preview_result error_image images pw =
     (if images = [] then handle_preview_error error_image no_preview_message pw
      else
        let pw1 = pw\<lparr>preview_manager := set_pages images (preview_manager pw)\<rparr>;
            pw2 = ui (Set_page_spin_maximum (max 1 (int (length images)))) pw1
        in ui Update_navigation (ui Show_current_page pw2))"

text \<open>
  \<open>update_preview\<close>, lines 305-307: a running worker is told to stop and waited for, for
  at most 100 ms. Whether it has stopped by then is not in the caller's hands:
  \<open>stopped_in_time\<close> is the outcome of \<open>wait(100)\<close>.
\<close>

definition stop_previous :: "bool \<Rightarrow> 't heap \<times> 'p PreviewWidget \<Rightarrow> 't heap \<times> 'p PreviewWidget" where
  "stop_previous stopped_in_time hp =
     (case worker (snd hp) of
        None \<Rightarrow> hp
      | Some a \<Rightarrow>
          if a < length (fst hp) \<and> isRunning (fst hp ! a)
          then
            let h1 = (fst hp)[a := cancel (fst hp ! a)];
                h2 = (if stopped_in_time then h1[a := (h1 ! a)\<lparr>isRunning := False\<rparr>] else h1)
            in (h2, snd hp)
          else hp)"

text \<open>Lines 315-324: the new worker is created, kept in \<open>self.worker\<close> and started.\<close>

definition start_new :: "pystr \<Rightarrow> 't \<Rightarrow> 't heap \<times> 'p PreviewWidget \<Rightarrow> 't heap \<times> 'p PreviewWidget" where
  "start_new txt tpl hp =
     (let a = length (fst hp);
          h1 = fst hp @ [\<lparr>self_text = txt, template = tpl, is_cancelled = False, isRunning = False\<rparr>];
          pw1 = (snd hp)\<lparr>worker := Some a\<rparr>;
          h2 = h1[a := (h1 ! a)\<lparr>isRunning := True\<rparr>]
      in (h2, pw1))"

definition update_preview :: "pystr \<Rightarrow> 't \<Rightarrow> bool \<Rightarrow> 't heap \<times> 'p PreviewWidget \<Rightarrow> 't heap \<times> 'p PreviewWidget" where
  "update_preview txt tpl stopped_in_time hp = start_new txt tpl (stop_previous stopped_in_time hp)"

text \<open>
  What happens to a preview widget and its workers: a preview is requested, a worker's
  \<open>run\<close> returns, or the cancel button of a progress dialog calls that worker's \<open>cancel\<close>.
\<close>

datatype 't preview_event = Update_preview pystr 't bool | Run_returned nat | Cancel_clicked nat

fun preview_step :: "'t preview_event \<Rightarrow> 't heap \<times> 'p PreviewWidget \<Rightarrow> 't heap \<times> 'p PreviewWidget" where
  "preview_step (Update_preview txt tpl stopped_in_time) hp = update_preview txt tpl stopped_in_time hp"
| "preview_step (Run_returned a) hp =
     (if a < length (fst hp) then ((fst hp)[a := (fst hp ! a)\<lparr>isRunning := False\<rparr>], snd hp) else hp)"
| "preview_step (Cancel_clicked a) hp =
     (if a < length (fst hp) then ((fst hp)[a := cancel (fst hp ! a)], snd hp) else hp)"

definition preview_steps :: "'t preview_event list \<Rightarrow> 't heap \<times> 'p PreviewWidget \<Rightarrow> 't heap \<times> 'p PreviewWidget" where
  "preview_steps evs hp = fold preview_step evs hp"

text \<open>The workers that are running and have not been told to stop.\<close>

definition active_workers :: "'t heap \<Rightarrow> nat list" where
  "active_workers h = filter (\<lambda>a. isRunning (h ! a) \<and> \<not> is_cancelled (h ! a)) [0..<length h]"

definition running_workers :: "'t heap \<Rightarrow> nat list" where
  "running_workers h = filter (\<lambda>a. isRunning (h ! a)) [0..<length h]"


section \<open>Properties of \<open>PreviewManager\<close>\<close>

lemma page_index_ok_init: "page_index_ok PreviewManager_init"
  by (simp add: page_index_ok_def PreviewManager_init_def)

lemma page_index_ok_call: "page_index_ok m \<Longrightarrow> page_index_ok (do_call c m)"
  by (cases c)
    (auto simp: page_index_ok_def set_pages_def next_page_def prev_page_def go_to_page_def
      split: if_splits)

lemma page_index_ok_fold: "page_index_ok m \<Longrightarrow> page_index_ok (fold do_call cs m)"
  by (induction cs arbitrary: m) (simp_all add: page_index_ok_call)

lemma page_index_ok_calls: "page_index_ok (pm_calls cs PreviewManager_init)"
  unfolding pm_calls_def by (rule page_index_ok_fold [OF page_index_ok_init])

lemma get_current_page_ok:
  assumes "page_index_ok m"
  shows "get_current_page m =
    Inr (if pages m = [] then None else Some (pages m ! nat (current_page m)))"
  using assms
  by (auto simp: page_index_ok_def get_current_page_def py_getitem_def Let_def split: if_splits)

text \<open>
  C8 (as stated, refuted): the claim says that \<open>go_to_page\<close> returns True exactly when it
  changes \<open>current_page\<close>. With one page loaded, \<open>go_to_page(0)\<close> returns True and the
  index stays 0.
\<close>

theorem go_to_page_true_without_change:
  "fst (go_to_page 0 (set_pages [0::nat] PreviewManager_init)) \<and>
   current_page (snd (go_to_page 0 (set_pages [0::nat] PreviewManager_init)))
     = current_page (set_pages [0::nat] PreviewManager_init)"
  by (simp add: go_to_page_def set_pages_def PreviewManager_init_def)

text \<open>
  C8 (amended): after any sequence of \<open>set_pages\<close>, \<open>next_page\<close>, \<open>prev_page\<close> and
  \<open>go_to_page\<close> calls on a fresh manager, \<open>current_page\<close> lies in \<open>[0, len(pages) - 1]\<close>
  whenever \<open>pages\<close> is non-empty; \<open>get_current_page\<close> raises nothing, returns
  \<open>pages[current_page]\<close> then, and returns None exactly when \<open>pages\<close> is empty;
  \<open>next_page\<close> and \<open>prev_page\<close> return True exactly when they change \<open>current_page\<close>;
  \<open>go_to_page(n)\<close> returns True exactly when \<open>0 \<le> n < len(pages)\<close>, and then
  \<open>current_page\<close> is \<open>n\<close>; each of the three leaves the manager unchanged when it returns
  False, and none of them changes \<open>pages\<close>.
\<close>

theorem PreviewManager_navigation:
  fixes cs :: "'p pm_call list" and n :: int
  assumes m: "m = pm_calls cs (PreviewManager_init :: 'p PreviewManager)"
  shows "(pages m \<noteq> [] \<longrightarrow> 0 \<le> current_page m \<and> current_page m \<le> int (length (pages m)) - 1)
    \<and> (pages m \<noteq> [] \<longrightarrow> get_current_page m = Inr (Some (pages m ! nat (current_page m))))
    \<and> (get_current_page m = Inr None \<longleftrightarrow> pages m = [])
    \<and> (fst (next_page m) \<longleftrightarrow> current_page (snd (next_page m)) \<noteq> current_page m)
    \<and> (fst (prev_page m) \<longleftrightarrow> current_page (snd (prev_page m)) \<noteq> current_page m)
    \<and> (fst (go_to_page n m) \<longleftrightarrow> 0 \<le> n \<and> n < int (length (pages m)))
    \<and> (fst (go_to_page n m) \<longrightarrow> current_page (snd (go_to_page n m)) = n)
    \<and> (\<not> fst (next_page m) \<longrightarrow> snd (next_page m) = m)
    \<and> (\<not> fst (prev_page m) \<longrightarrow> snd (prev_page m) = m)
    \<and> (\<not> fst (go_to_page n m) \<longrightarrow> snd (go_to_page n m) = m)
    \<and> pages (snd (next_page m)) = pages m
    \<and> pages (snd (prev_page m)) = pages m
    \<and> pages (snd (go_to_page n m)) = pages m"
proof -
  have ok: "page_index_ok m"
    unfolding m by (rule page_index_ok_calls)
  have g: "get_current_page m =
      Inr (if pages m = [] then None else Some (pages m ! nat (current_page m)))"
    by (rule get_current_page_ok [OF ok])
  have r: "pages m \<noteq> [] \<longrightarrow> 0 \<le> current_page m \<and> current_page m \<le> int (length (pages m)) - 1"
    using ok by (simp add: page_index_ok_def split: if_splits)
  have nx: "(fst (next_page m) \<longleftrightarrow> current_page (snd (next_page m)) \<noteq> current_page m)
      \<and> (\<not> fst (next_page m) \<longrightarrow> snd (next_page m) = m)
      \<and> pages (snd (next_page m)) = pages m"
    by (simp add: next_page_def)
  have pv: "(fst (prev_page m) \<longleftrightarrow> current_page (snd (prev_page m)) \<noteq> current_page m)
      \<and> (\<not> fst (prev_page m) \<longrightarrow> snd (prev_page m) = m)
      \<and> pages (snd (prev_page m)) = pages m"
    by (simp add: prev_page_def)
  have gt: "(fst (go_to_page n m) \<longleftrightarrow> 0 \<le> n \<and> n < int (length (pages m)))
      \<and> (fst (go_to_page n m) \<longrightarrow> current_page (snd (go_to_page n m)) = n)
      \<and> (\<not> fst (go_to_page n m) \<longrightarrow> snd (go_to_page n m) = m)
      \<and> pages (snd (go_to_page n m)) = pages m"
    by (simp add: go_to_page_def)
  from g have g1: "pages m \<noteq> [] \<longrightarrow> get_current_page m = Inr (Some (pages m ! nat (current_page m)))"
    by simp
  from g have g2: "get_current_page m = Inr None \<longleftrightarrow> pages m = []"
    by simp
  show ?thesis
    using r g1 g2 nx pv gt by blast
qed

theorem PreviewManager_navigation_witness:
  "pm_calls [Set_pages [10, 20, 30 :: nat], Next_page, Next_page, Next_page, Go_to_page 1, Prev_page]
      PreviewManager_init = \<lparr>current_page = 0, pages = [10, 20, 30]\<rparr>
   \<and> get_current_page \<lparr>current_page = 0, pages = [10, 20, 30 :: nat]\<rparr> = Inr (Some 10)
   \<and> \<not> fst (prev_page \<lparr>current_page = 0, pages = [10, 20, 30 :: nat]\<rparr>)
   \<and> fst (go_to_page 2 \<lparr>current_page = 0, pages = [10, 20, 30 :: nat]\<rparr>)
   \<and> current_page (snd (go_to_page 2 \<lparr>current_page = 0, pages = [10, 20, 30 :: nat]\<rparr>)) = 2"
proof -
  have e: "pm_calls [Set_pages [10, 20, 30 :: nat], Next_page, Next_page, Next_page, Go_to_page 1, Prev_page]
        PreviewManager_init = \<lparr>current_page = 0, pages = [10, 20, 30 :: nat]\<rparr>"
    by (simp add: pm_calls_def set_pages_def next_page_def prev_page_def go_to_page_def
        PreviewManager_init_def)
  show ?thesis
    using PreviewManager_navigation [OF e [symmetric], of 2] e
    by (simp add: prev_page_def go_to_page_def)
qed


section \<open>Properties of binary64 rounding\<close>

lemma rhe_cases: "round_half_even x = \<lfloor>x\<rfloor> \<or> round_half_even x = \<lfloor>x\<rfloor> + 1"
  by (simp add: round_half_even_def Let_def)

lemma rhe_ge_floor: "\<lfloor>x\<rfloor> \<le> round_half_even x"
  using rhe_cases [of x] by auto

lemma rhe_le_floor1: "round_half_even x \<le> \<lfloor>x\<rfloor> + 1"
  using rhe_cases [of x] by auto

lemma rhe_of_int: "round_half_even (of_int n) = n"
  by (simp add: round_half_even_def)

lemma rhe_mono:
  assumes "x \<le> y"
  shows "round_half_even x \<le> round_half_even y"
proof (cases "\<lfloor>x\<rfloor> = \<lfloor>y\<rfloor>")
  case True
  with assms show ?thesis
    by (auto simp: round_half_even_def Let_def)
next
  case False
  with assms have "\<lfloor>x\<rfloor> + 1 \<le> \<lfloor>y\<rfloor>"
    using floor_mono [of x y] by linarith
  then show ?thesis
    using rhe_le_floor1 [of x] rhe_ge_floor [of y] by linarith
qed

lemma rhe_err: "\<bar>of_int (round_half_even x) - x\<bar> \<le> 1/2"
proof -
  have "of_int \<lfloor>x\<rfloor> \<le> x" "x < of_int \<lfloor>x\<rfloor> + 1"
    by linarith+
  then show ?thesis
    by (auto simp: round_half_even_def Let_def abs_le_iff)
qed

lemma two_powi_pos: "0 < (2::rat) powi e"
  by simp

lemma of_int_bitlen_bounds:
  assumes "0 < a"
  shows "(2::rat) powi (bitlen a - 1) \<le> of_int a" "of_int a < (2::rat) powi (bitlen a)"
proof -
  from bitlen_bounds [OF assms]
  have l: "2 ^ nat (bitlen a - 1) \<le> a" and u: "a < 2 ^ nat (bitlen a)"
    by simp_all
  have p: "0 < bitlen a"
  proof (rule ccontr)
    assume "\<not> 0 < bitlen a"
    then have "nat (bitlen a) = 0" by simp
    with u assms show False by simp
  qed
  have "(2::rat) powi (bitlen a - 1) = of_int (2 ^ nat (bitlen a - 1))"
    using p by (simp add: power_int_def)
  also have "\<dots> \<le> of_int a"
    using l by (simp only: of_int_le_iff)
  finally show "(2::rat) powi (bitlen a - 1) \<le> of_int a" .
  have "(of_int a :: rat) < of_int (2 ^ nat (bitlen a))"
    using u by (simp only: of_int_less_iff)
  also have "\<dots> = (2::rat) powi (bitlen a)"
    using p by (simp add: power_int_def)
  finally show "of_int a < (2::rat) powi (bitlen a)" .
qed

lemma two_powi_less_D: "(2::rat) powi m < 2 powi n \<Longrightarrow> m < n"
  using power_int_increasing [of n m "2::rat"] by (cases "m < n") auto

lemma two_powi_le_D: "(2::rat) powi m \<le> 2 powi n \<Longrightarrow> m \<le> n"
  using power_int_strict_increasing [of n m "2::rat"] by (cases "m \<le> n") auto

lemma float_exponent_bounds:
  assumes "0 < x"
  shows "2 powi (float_exponent x) \<le> x" "x < 2 powi (float_exponent x + 1)"
proof -
  define a where "a = fst (quotient_of x)"
  define b where "b = snd (quotient_of x)"
  define d where "d = bitlen a - bitlen b"
  have q: "quotient_of x = (a, b)"
    by (simp add: a_def b_def)
  have b: "0 < b"
    using quotient_of_denom_pos [OF q] .
  have x: "x = of_int a / of_int b"
    using quotient_of_div [OF q] .
  have a: "0 < a"
    using assms b unfolding x by (simp add: zero_less_divide_iff)
  note A = of_int_bitlen_bounds [OF a]
  note B = of_int_bitlen_bounds [OF b]
  have rb: "(0::rat) < of_int b"
    using b by simp
  have up: "x < 2 powi (d + 1)"
  proof -
    have "of_int a < (2::rat) powi (bitlen a)"
      by (rule A)
    also have "\<dots> = 2 powi (d + 1) * 2 powi (bitlen b - 1)"
      by (simp add: d_def flip: power_int_add)
    also have "\<dots> \<le> 2 powi (d + 1) * of_int b"
      using B(1) by (simp add: mult_left_mono)
    finally show ?thesis
      unfolding x using rb by (simp add: pos_divide_less_eq)
  qed
  have lo: "2 powi (d - 1) < x"
  proof -
    have "(2::rat) powi (d - 1) * of_int b < 2 powi (d - 1) * 2 powi (bitlen b)"
      using B(2) by (simp add: mult_strict_left_mono)
    also have "\<dots> = 2 powi (bitlen a - 1)"
      by (simp add: d_def flip: power_int_add)
    also have "\<dots> \<le> of_int a"
      by (rule A)
    finally show ?thesis
      unfolding x using rb by (simp add: pos_less_divide_eq)
  qed
  have e: "float_exponent x = (if 2 powi d \<le> x then d else d - 1)"
    by (simp add: float_exponent_def Let_def d_def a_def b_def)
  show "2 powi (float_exponent x) \<le> x"
    using lo by (simp add: e)
  show "x < 2 powi (float_exponent x + 1)"
    using up by (simp add: e)
qed

lemma float_exponent_unique:
  assumes "2 powi k \<le> x" "x < 2 powi (k + 1)"
  shows "float_exponent x = k"
proof -
  have x: "0 < x"
    using assms(1) two_powi_pos [of k] by linarith
  note E = float_exponent_bounds [OF x]
  have "(2::rat) powi k < 2 powi (float_exponent x + 1)"
    using assms(1) E(2) by linarith
  then have 1: "k < float_exponent x + 1"
    by (rule two_powi_less_D)
  have "(2::rat) powi (float_exponent x) < 2 powi (k + 1)"
    using assms(2) E(1) by linarith
  then have 2: "float_exponent x < k + 1"
    by (rule two_powi_less_D)
  from 1 2 show ?thesis by linarith
qed

lemma float_exponent_mono:
  assumes "0 < x" "x \<le> y"
  shows "float_exponent x \<le> float_exponent y"
proof -
  have y: "0 < y" using assms by linarith
  have "(2::rat) powi (float_exponent x) < 2 powi (float_exponent y + 1)"
    using float_exponent_bounds(1) [OF assms(1)] float_exponent_bounds(2) [OF y] assms(2)
    by linarith
  then have "float_exponent x < float_exponent y + 1"
    by (rule two_powi_less_D)
  then show ?thesis by simp
qed

lemma round_to_mono:
  assumes "x \<le> y"
  shows "round_to e x \<le> round_to e y"
proof -
  have "x / 2 powi e \<le> y / 2 powi e"
    using assms by (simp add: divide_right_mono)
  then have "round_half_even (x / 2 powi e) \<le> round_half_even (y / 2 powi e)"
    by (rule rhe_mono)
  then show ?thesis
    by (simp add: round_to_def)
qed

lemma round_to_power:
  assumes "e \<le> k"
  shows "round_to e (2 powi k) = 2 powi k"
proof -
  have "(2::rat) powi k / 2 powi e = 2 powi (k - e)"
    by (simp add: power_int_diff)
  also have "\<dots> = of_int (2 ^ nat (k - e))"
    using assms by (simp add: power_int_def)
  finally have "round_half_even (2 powi k / 2 powi e) = 2 ^ nat (k - e)"
    by (simp only: rhe_of_int)
  then have "round_to e (2 powi k) = of_int (2 ^ nat (k - e)) * 2 powi e"
    by (simp add: round_to_def)
  also have "\<dots> = 2 powi (k - e) * 2 powi e"
    using assms by (simp add: power_int_def)
  also have "\<dots> = 2 powi k"
    by (simp flip: power_int_add)
  finally show ?thesis .
qed

lemma round_to_err: "\<bar>round_to e x - x\<bar> \<le> 2 powi e / 2"
proof -
  have "round_to e x - x = (of_int (round_half_even (x / 2 powi e)) - x / 2 powi e) * 2 powi e"
    by (simp add: round_to_def algebra_simps)
  then have "\<bar>round_to e x - x\<bar> = \<bar>of_int (round_half_even (x / 2 powi e)) - x / 2 powi e\<bar> * 2 powi e"
    by (simp add: abs_mult)
  also have "\<dots> \<le> (1/2) * 2 powi e"
    by (rule mult_right_mono [OF rhe_err]) simp
  finally show ?thesis by simp
qed

lemma ulp_exponent_le: "ulp_exponent x \<le> max (float_exponent x) (- 1074)"
  by (simp add: ulp_exponent_def)

lemma round_binary64_pos: "0 < x \<Longrightarrow> round_binary64 x = round_to (ulp_exponent x) x"
  by (simp add: round_binary64_def)

lemma round_binary64_mono_pos:
  assumes "0 < x" "x \<le> y"
  shows "round_binary64 x \<le> round_binary64 y"
proof -
  have y: "0 < y" using assms by linarith
  have E: "float_exponent x \<le> float_exponent y"
    by (rule float_exponent_mono [OF assms])
  then have U: "ulp_exponent x \<le> ulp_exponent y"
    by (simp add: ulp_exponent_def)
  show ?thesis
  proof (cases "ulp_exponent x = ulp_exponent y")
    case True
    then show ?thesis
      using round_to_mono [OF assms(2), of "ulp_exponent y"]
      by (simp add: round_binary64_pos assms(1) y)
  next
    case False
    with U have lt: "ulp_exponent x < ulp_exponent y" by simp
    define k where "k = float_exponent y"
    have ky: "ulp_exponent y = k - 52" and kx: "float_exponent x + 1 \<le> k"
      using lt by (auto simp: ulp_exponent_def k_def)
    have ex: "ulp_exponent x \<le> k"
      using lt ky by simp
    have ey: "ulp_exponent y \<le> k"
      using ky by simp
    have "x \<le> 2 powi (float_exponent x + 1)"
      using float_exponent_bounds(2) [OF assms(1)] by simp
    also have "\<dots> \<le> 2 powi k"
      using kx by (simp add: power_int_increasing)
    finally have xk: "x \<le> 2 powi k" .
    have yk: "2 powi k \<le> y"
      unfolding k_def by (rule float_exponent_bounds(1) [OF y])
    have "round_binary64 x \<le> round_to (ulp_exponent x) (2 powi k)"
      using round_to_mono [OF xk] by (simp add: round_binary64_pos assms(1))
    also have "\<dots> = 2 powi k"
      by (rule round_to_power [OF ex])
    also have "\<dots> = round_to (ulp_exponent y) (2 powi k)"
      by (rule round_to_power [OF ey, symmetric])
    also have "\<dots> \<le> round_binary64 y"
      using round_to_mono [OF yk] by (simp add: round_binary64_pos y)
    finally show ?thesis .
  qed
qed

lemma round_binary64_nonneg: "0 \<le> x \<Longrightarrow> 0 \<le> round_binary64 x"
proof -
  assume "0 \<le> x"
  have "0 \<le> round_half_even (x / 2 powi e)" for e
    using rhe_mono [of 0 "x / 2 powi e"] \<open>0 \<le> x\<close> rhe_of_int [of 0] by simp
  then show ?thesis
    using \<open>0 \<le> x\<close> by (cases "x = 0") (simp_all add: round_binary64_def round_to_def)
qed

lemma round_binary64_lower:
  assumes "1 \<le> x"
  shows "x - x / 2 ^ 53 \<le> round_binary64 x"
proof -
  have x: "0 < x" using assms by linarith
  have "(2::rat) powi 0 < 2 powi (float_exponent x + 1)"
    using float_exponent_bounds(2) [OF x] assms by simp
  then have "0 < float_exponent x + 1"
    by (rule two_powi_less_D)
  then have u: "ulp_exponent x = float_exponent x - 52"
    by (simp add: ulp_exponent_def)
  have "(2::rat) powi (ulp_exponent x) = 2 powi (float_exponent x) / 2 ^ 52"
    unfolding u by (simp add: power_int_diff)
  also have "\<dots> \<le> x / 2 ^ 52"
    using float_exponent_bounds(1) [OF x] by (simp add: divide_right_mono)
  finally have h: "(2::rat) powi (ulp_exponent x) / 2 \<le> x / 2 ^ 53"
    by simp
  have "x - round_to (ulp_exponent x) x \<le> 2 powi (ulp_exponent x) / 2"
    using round_to_err [of "ulp_exponent x" x] by linarith
  with h show ?thesis
    unfolding round_binary64_pos [OF x] by linarith
qed

section \<open>Properties of the progress computation\<close>

lemma round_binary64_zero: "round_binary64 0 = 0"
  by (simp add: round_binary64_def)

lemma round_binary64_mono_nonneg:
  assumes "0 \<le> x" "x \<le> y"
  shows "round_binary64 x \<le> round_binary64 y"
proof (cases "x = 0")
  case True
  then show ?thesis
    using round_binary64_nonneg [of y] assms by (simp add: round_binary64_zero)
next
  case False
  with assms have "0 < x" by simp
  then show ?thesis
    by (rule round_binary64_mono_pos [OF _ assms(2)])
qed

lemma round_binary64_power:
  assumes "- 1074 \<le> k"
  shows "round_binary64 (2 powi k) = 2 powi k"
proof -
  have "float_exponent (2 powi k) = k"
    by (rule float_exponent_unique) (simp_all add: power_int_strict_increasing)
  then have "ulp_exponent (2 powi k) \<le> k"
    using assms by (simp add: ulp_exponent_def)
  then show ?thesis
    by (simp add: round_binary64_pos round_to_power)
qed

lemma round_binary64_le_power:
  assumes "0 \<le> x" "x \<le> 2 powi k" "- 1074 \<le> k"
  shows "round_binary64 x \<le> 2 powi k"
  using round_binary64_mono_nonneg [OF assms(1,2)] round_binary64_power [OF assms(3)] by simp

lemma binary64_finite:
  assumes "0 \<le> x" "x \<le> 2 powi k" "- 1074 \<le> k" "k < 1024"
  shows "binary64 x = Finite (round_binary64 x)"
proof -
  have "round_binary64 x \<le> 2 powi k"
    by (rule round_binary64_le_power [OF assms(1-3)])
  also have "(2::rat) powi k < 2 powi 1024"
    by (rule power_int_strict_increasing) (use assms(4) in simp_all)
  also have "(2::rat) powi 1024 = 2 ^ 1024"
    by (simp add: power_int_def)
  finally have "round_binary64 x < 2 ^ 1024" .
  moreover have "0 \<le> round_binary64 x"
    by (rule round_binary64_nonneg [OF assms(1)])
  ultimately show ?thesis
    by (simp add: binary64_def Let_def)
qed

lemma float_of_int_100: "float_of_int 100 = Inr 100"
  by code_simp

text \<open>The value of the progress expression when nothing overflows.\<close>

lemma progress_value_Inr:
  assumes "progress_value c t = Inr p"
  shows "t \<noteq> 0 \<and> p = min 95 (let y = round_binary64 (round_binary64 (of_int c / of_int t) * 100)
                in if 0 \<le> y then \<lfloor>y\<rfloor> else \<lceil>y\<rceil>)"
  using assms
  by (auto simp: progress_value_def py_truediv_def float_times_int_def float_of_int_100 raise_def
      binary64_def Let_def split: if_splits pyfloat.splits sum.splits)

lemma progress_value_range:
  assumes "progress_value c t = Inr p" "0 \<le> c" "0 < t"
  shows "0 \<le> p \<and> p \<le> 95"
proof -
  have "0 \<le> round_binary64 (of_int c / of_int t)"
    using assms by (intro round_binary64_nonneg) simp
  then have "0 \<le> round_binary64 (round_binary64 (of_int c / of_int t) * 100)"
    by (intro round_binary64_nonneg) simp
  then show ?thesis
    using progress_value_Inr [OF assms(1)] by (simp add: Let_def)
qed

lemma progress_value_mono:
  assumes "progress_value c t = Inr p" "progress_value c' t = Inr p'" "0 \<le> c" "c \<le> c'" "0 < t"
  shows "p \<le> p'"
proof -
  let ?q = "\<lambda>c. round_binary64 (of_int c / of_int t)"
  let ?y = "\<lambda>c. round_binary64 (?q c * 100)"
  have "(of_int c :: rat) / of_int t \<le> of_int c' / of_int t"
    using assms by (simp add: divide_right_mono)
  moreover have "(0::rat) \<le> of_int c / of_int t"
    using assms by simp
  ultimately have q: "?q c \<le> ?q c'"
    by (intro round_binary64_mono_nonneg)
  have q0: "0 \<le> ?q c"
    using assms by (intro round_binary64_nonneg) simp
  have y: "?y c \<le> ?y c'"
    using q q0 by (intro round_binary64_mono_nonneg) simp_all
  have y0: "0 \<le> ?y c"
    using q0 by (intro round_binary64_nonneg) simp
  have "\<lfloor>?y c\<rfloor> \<le> \<lfloor>?y c'\<rfloor>"
    using y by (rule floor_mono)
  then show ?thesis
    using progress_value_Inr [OF assms(1)] progress_value_Inr [OF assms(2)] y y0
    by (simp add: Let_def)
qed

lemma progress_value_defined:
  assumes "0 \<le> c" "0 < t" "c \<le> 2 ^ 63 * t"
  shows "\<exists>p. progress_value c t = Inr p"
proof -
  let ?x = "(of_int c :: rat) / of_int t"
  have x0: "0 \<le> ?x" using assms by simp
  have "(of_int c :: rat) \<le> of_int (2 ^ 63 * t)"
    using assms(3) by (simp only: of_int_le_iff)
  then have x1: "?x \<le> 2 powi 63"
    using assms(2) by (simp add: pos_divide_le_eq)
  have f1: "binary64 ?x = Finite (round_binary64 ?x)"
    by (rule binary64_finite [OF x0 x1]) simp_all
  have q0: "0 \<le> round_binary64 ?x"
    by (rule round_binary64_nonneg [OF x0])
  have q1: "round_binary64 ?x \<le> 2 powi 63"
    by (rule round_binary64_le_power [OF x0 x1]) simp
  have "round_binary64 ?x * 100 \<le> 2 powi 63 * 2 powi 7"
    using q0 q1 by (intro mult_mono) simp_all
  also have "\<dots> = 2 powi 70"
    by simp
  finally have y1: "round_binary64 ?x * 100 \<le> 2 powi 70" .
  have y0: "0 \<le> round_binary64 ?x * 100"
    using q0 by simp
  have f2: "binary64 (round_binary64 ?x * 100) = Finite (round_binary64 (round_binary64 ?x * 100))"
    by (rule binary64_finite [OF y0 y1]) simp_all
  show ?thesis
    using assms(2) by (simp add: progress_value_def py_truediv_def f1 float_times_int_def float_of_int_100 f2)
qed

section \<open>Properties of \<open>WorkerThread.run\<close>\<close>

lemma interleave_fields [simp]:
  "result (interleave s) = result s"
  "chars_processed (interleave s) = chars_processed s"
  "emitted (interleave s) = emitted s"
  "invoked (interleave s) = invoked s"
  "self_text (self (interleave s)) = self_text (self s)"
  "template (self (interleave s)) = template (self s)"
  by (simp_all add: interleave_def cancel_def split: list.splits)

lemma interleave_cancelled:
  "is_cancelled (self (interleave s)) \<longleftrightarrow>
     is_cancelled (self s) \<or> (pending s \<noteq> [] \<and> hd (pending s))"
  by (simp add: interleave_def cancel_def split: list.splits)

lemma interleave_pending: "pending (interleave s) = tl (pending s)"
  by (simp add: interleave_def split: list.splits)

lemma emit_fields [simp]:
  "result (emit sg s) = result s"
  "chars_processed (emit sg s) = chars_processed s"
  "emitted (emit sg s) = emitted s @ [sg]"
  "invoked (emit sg s) = invoked s"
  "self (emit sg s) = self s"
  "pending (emit sg s) = pending s"
  by (simp_all add: emit_def)

text \<open>What the loop emits: progress values only, each in range and none below an earlier one.\<close>

lemma consume_emits:
  assumes "0 < t" "0 < step" "0 \<le> chars_processed s"
  shows "\<exists>ps. emitted (snd (consume t step g s)) = emitted s @ map ProgressChanged ps
           \<and> sorted ps
           \<and> (\<forall>p \<in> set ps. 0 \<le> p \<and> p \<le> 95
                 \<and> (\<forall>c0 p0. 0 \<le> c0 \<and> c0 \<le> chars_processed s \<and> progress_value c0 t = Inr p0 \<longrightarrow> p0 \<le> p))"
  using assms(3)
proof (induction g arbitrary: s)
  case StopIteration
  show ?case by (rule exI [of _ "[]"]) simp
next
  case (Raises e)
  show ?case by (rule exI [of _ "[]"]) simp
next
  case (Yield page rest)
  let ?s1 = "interleave s"
  show ?case
  proof (cases "is_cancelled (self ?s1)")
    case True
    then show ?thesis by (intro exI [of _ "[]"]) (simp add: Let_def)
  next
    case nc: False
    let ?c = "chars_processed s + step"
    let ?s3 = "?s1\<lparr>result := result ?s1 @ [page], chars_processed := ?c\<rparr>"
    show ?thesis
    proof (cases "progress_value ?c t")
      case (Inl e)
      with nc show ?thesis by (intro exI [of _ "[]"]) (simp add: Let_def)
    next
      case (Inr p)
      let ?s4 = "emit (ProgressChanged p) ?s3"
      have c0: "0 \<le> chars_processed ?s4"
        using Yield.prems assms(2) by simp
      from Yield.IH [OF c0] obtain ps where
        e: "emitted (snd (consume t step rest ?s4)) = emitted ?s4 @ map ProgressChanged ps"
        and s: "sorted ps"
        and b: "\<forall>q \<in> set ps. 0 \<le> q \<and> q \<le> 95
                 \<and> (\<forall>c0 p0. 0 \<le> c0 \<and> c0 \<le> chars_processed ?s4 \<and> progress_value c0 t = Inr p0 \<longrightarrow> p0 \<le> q)"
        by blast
      have cpos: "0 \<le> ?c"
        using Yield.prems assms(2) by simp
      have pr: "0 \<le> p \<and> p \<le> 95"
        by (rule progress_value_range [OF Inr cpos assms(1)])
      have ple: "\<forall>q \<in> set ps. p \<le> q"
      proof
        fix q assume "q \<in> set ps"
        with b have "\<forall>c0 p0. 0 \<le> c0 \<and> c0 \<le> chars_processed ?s4 \<and> progress_value c0 t = Inr p0 \<longrightarrow> p0 \<le> q"
          by blast
        then show "p \<le> q"
          using Inr cpos by (auto simp: emit_def)
      qed
      have low: "\<forall>c0 p0. 0 \<le> c0 \<and> c0 \<le> chars_processed s \<and> progress_value c0 t = Inr p0 \<longrightarrow> p0 \<le> p"
      proof (intro allI impI)
        fix c0 p0
        assume h: "0 \<le> c0 \<and> c0 \<le> chars_processed s \<and> progress_value c0 t = Inr p0"
        then have "c0 \<le> ?c" using assms(2) by simp
        with h show "p0 \<le> p"
          using progress_value_mono [of c0 t p0 ?c p] Inr assms(1) by simp
      qed
      have low': "\<forall>q \<in> set ps. \<forall>c0 p0. 0 \<le> c0 \<and> c0 \<le> chars_processed s \<and> progress_value c0 t = Inr p0 \<longrightarrow> p0 \<le> q"
        using low ple by force
      have eq: "consume t step (Yield page rest) s = consume t step rest ?s4"
        using nc Inr by (simp add: Let_def)
      show ?thesis
      proof (intro exI [of _ "p # ps"] conjI ballI)
        show "emitted (snd (consume t step (Yield page rest) s)) = emitted s @ map ProgressChanged (p # ps)"
          unfolding eq e by simp
        show "sorted (p # ps)"
          using s ple by simp
      next
        fix q assume "q \<in> set (p # ps)"
        then show "0 \<le> q" "q \<le> 95"
          using pr b by auto
      next
        fix q assume "q \<in> set (p # ps)"
        then show "\<forall>c0 p0. 0 \<le> c0 \<and> c0 \<le> chars_processed s \<and> progress_value c0 t = Inr p0 \<longrightarrow> p0 \<le> q"
          using low low' by auto
      qed
    qed
  qed
qed

lemma consume_invoked: "invoked (snd (consume t step g s)) = invoked s"
  by (induction g arbitrary: s) (simp_all add: Let_def split: sum.splits)

lemma consume_self:
  "self_text (self (snd (consume t step g s))) = self_text (self s)
   \<and> template (self (snd (consume t step g s))) = template (self s)"
  by (induction g arbitrary: s) (simp_all add: Let_def split: sum.splits)

text \<open>Once the flag is set it stays set.\<close>

lemma consume_stays_cancelled:
  "is_cancelled (self s) \<Longrightarrow> is_cancelled (self (snd (consume t step g s)))"
  by (induction g arbitrary: s) (simp_all add: Let_def interleave_cancelled split: sum.splits)

text \<open>
  A flag set by the time of the check in iteration \<open>k\<close> ends the loop with at most \<open>k\<close>
  emissions, and the loop then ends cancelled unless it ended by an exception.
\<close>

lemma consume_cancel_seen:
  assumes "is_cancelled (self s) \<or> True \<in> set (take (Suc k) (pending s))"
    and "k < length (yielded g)"
  shows "length (emitted (snd (consume t step g s))) \<le> length (emitted s) + k
    \<and> (fst (consume t step g s) = Inr () \<longrightarrow> is_cancelled (self (snd (consume t step g s))))"
  using assms
proof (induction g arbitrary: s k)
  case StopIteration
  then show ?case by simp
next
  case (Raises e)
  then show ?case by simp
next
  case (Yield page rest)
  let ?s1 = "interleave s"
  show ?case
  proof (cases "is_cancelled (self ?s1)")
    case True
    then show ?thesis by (simp add: Let_def)
  next
    case nc: False
    then have n0: "\<not> is_cancelled (self s)" and hd: "pending s = [] \<or> \<not> hd (pending s)"
      by (auto simp: interleave_cancelled)
    with Yield.prems(1) have tk: "True \<in> set (take (Suc k) (pending s))"
      by simp
    then obtain c cs where p: "pending s = c # cs"
      by (cases "pending s") auto
    with hd have c: "\<not> c" by simp
    from tk p c have tk': "True \<in> set (take k cs)"
      by simp
    then obtain k' where k: "k = Suc k'"
      by (cases k) auto
    have p1: "pending ?s1 = cs"
      by (simp add: interleave_pending p)
    let ?c = "chars_processed s + step"
    let ?s3 = "?s1\<lparr>result := result ?s1 @ [page], chars_processed := ?c\<rparr>"
    show ?thesis
    proof (cases "progress_value ?c t")
      case (Inl e)
      with nc show ?thesis by (simp add: Let_def)
    next
      case (Inr p)
      let ?s4 = "emit (ProgressChanged p) ?s3"
      have a: "is_cancelled (self ?s4) \<or> True \<in> set (take (Suc k') (pending ?s4))"
        using tk' k p1 by (simp add: emit_def)
      have b: "k' < length (yielded rest)"
        using Yield.prems(2) k by simp
      have eq: "consume t step (Yield page rest) s = consume t step rest ?s4"
        using nc Inr by (simp add: Let_def)
      show ?thesis
        using Yield.IH [OF a b] unfolding eq k by simp
    qed
  qed
qed

text \<open>
  With no cancellation among the first reads and fewer pages than would overflow the
  progress arithmetic, the loop gets to the exception the generator raises.
\<close>

lemma consume_reaches_raise:
  assumes "0 < t" "0 < step"
    and "0 \<le> chars_processed s"
    and "\<not> is_cancelled (self s)"
    and "True \<notin> set (take (length ps) (pending s))"
    and "chars_processed s + int (length ps) * step \<le> 2 ^ 63 * t"
  shows "fst (consume t step (yields_then ps (Raises e)) s) = Inl e"
  using assms(3-6)
proof (induction ps arbitrary: s)
  case Nil
  show ?case by simp
next
  case (Cons page ps)
  let ?s1 = "interleave s"
  have nc: "\<not> is_cancelled (self ?s1)"
    using Cons.prems(2,3) by (cases "pending s") (auto simp: interleave_cancelled)
  let ?c = "chars_processed s + step"
  let ?s3 = "?s1\<lparr>result := result ?s1 @ [page], chars_processed := ?c\<rparr>"
  have "0 \<le> int (length ps) * step"
    using assms(2) by simp
  then have cb: "?c \<le> 2 ^ 63 * t"
    using Cons.prems(4) by (simp add: algebra_simps)
  have cpos: "0 \<le> ?c"
    using Cons.prems(1) assms(2) by simp
  from progress_value_defined [OF cpos assms(1) cb]
  obtain p where Inr: "progress_value ?c t = Inr p" by blast
  let ?s4 = "emit (ProgressChanged p) ?s3"
  have eq: "consume t step (yields_then (page # ps) (Raises e)) s = consume t step (yields_then ps (Raises e)) ?s4"
    using nc Inr by (simp add: Let_def)
  have 1: "0 \<le> chars_processed ?s4" using cpos by simp
  have 2: "\<not> is_cancelled (self ?s4)" using nc by simp
  have 3: "True \<notin> set (take (length ps) (pending ?s4))"
    using Cons.prems(3) by (cases "pending s") (auto simp: interleave_pending)
  have 4: "chars_processed ?s4 + int (length ps) * step \<le> 2 ^ 63 * t"
    using Cons.prems(4) by (simp add: algebra_simps)
  show ?case
    unfolding eq by (rule Cons.IH [OF 1 2 3 4])
qed

lemma placeholder_text_nonempty: "placeholder_text \<noteq> []"
  by (simp add: placeholder_text_def)

lemma substitute_text_nonempty: "self_text (substitute_text w) \<noteq> []"
  by (simp add: substitute_text_def placeholder_text_nonempty)

lemma substitute_text_fields [simp]:
  "template (substitute_text w) = template w"
  "is_cancelled (substitute_text w) = is_cancelled w"
  by (simp_all add: substitute_text_def)

lemma text_length_pos: "0 < int (length (self_text (substitute_text w)))"
  using substitute_text_nonempty [of w] by simp

lemma progress_step_eq: "progress_step t = Inr (max 1 (t div 100))"
  by (simp add: progress_step_def py_floordiv_def)

text \<open>The state in which the loop is entered, and the loop as \<open>run_loop\<close> runs it.\<close>

lemma run_loop_raise:
  assumes "hw (self_text (substitute_text w)) (template w) = Inl e"
  shows "run_loop hw env w =
    (Inl e, \<lparr>self = substitute_text w, result = [], chars_processed = 0, emitted = [],
       invoked = [(self_text (substitute_text w), template w)], pending = env\<rparr>)"
  using assms by (simp add: run_loop_def Let_def)

lemma run_loop_consume:
  assumes "hw (self_text (substitute_text w)) (template w) = Inr g"
  shows "run_loop hw env w =
    consume (int (length (self_text (substitute_text w))))
      (max 1 (int (length (self_text (substitute_text w))) div 100)) g
      \<lparr>self = substitute_text w, result = [], chars_processed = 0, emitted = [],
       invoked = [(self_text (substitute_text w), template w)], pending = env\<rparr>"
  using assms by (simp add: run_loop_def Let_def progress_step_eq)

lemma run_loop_emits:
  "\<exists>ps. emitted (snd (run_loop hw env w)) = map ProgressChanged ps
     \<and> sorted ps \<and> (\<forall>p \<in> set ps. 0 \<le> p \<and> p \<le> 95)"
proof (cases "hw (self_text (substitute_text w)) (template w)")
  case (Inl e)
  show ?thesis
    unfolding run_loop_raise [where hw = hw and w = w, OF Inl] by (rule exI [of _ "[]"]) simp
next
  case (Inr g)
  let ?t = "int (length (self_text (substitute_text w)))"
  let ?s = "\<lparr>self = substitute_text w, result = [], chars_processed = 0, emitted = [],
       invoked = [(self_text (substitute_text w), template w)], pending = env\<rparr> :: ('a, 'b) run_state"
  have "0 < max 1 (?t div 100)" by simp
  from consume_emits [OF text_length_pos [of w] this, where s = ?s and g = g]
  show ?thesis
    unfolding run_loop_consume [where hw = hw and w = w, OF Inr] by auto
qed

lemma run_loop_invoked:
  "invoked (snd (run_loop hw env w)) = [(self_text (substitute_text w), template w)]"
proof (cases "hw (self_text (substitute_text w)) (template w)")
  case (Inl e)
  show ?thesis unfolding run_loop_raise [where hw = hw and w = w, OF Inl] by simp
next
  case (Inr g)
  show ?thesis unfolding run_loop_consume [where hw = hw and w = w, OF Inr] by (simp add: consume_invoked)
qed

text \<open>The three ways \<open>run\<close> ends, by how the loop ended and what the last read of the flag saw.\<close>

lemma run_error:
  assumes "fst (run_loop hw env w) = Inl e"
  shows "run hw env w = emit (ErrorOccurred (error_message e)) (snd (run_loop hw env w))"
    and "fst (run_try hw env w) = Inl e"
  using assms by (cases "run_loop hw env w"; simp add: run_def run_try_def Let_def)+

lemma run_cancelled:
  assumes "fst (run_loop hw env w) = Inr ()"
    and "is_cancelled (self (interleave (snd (run_loop hw env w))))"
  shows "run hw env w = interleave (snd (run_loop hw env w))"
    and "fst (run_try hw env w) = Inr ()"
  using assms by (cases "run_loop hw env w"; simp add: run_def run_try_def Let_def)+

lemma run_completed:
  assumes "fst (run_loop hw env w) = Inr ()"
    and "\<not> is_cancelled (self (interleave (snd (run_loop hw env w))))"
  shows "run hw env w =
      emit (ResultReady (result (snd (run_loop hw env w))))
        (emit (ProgressChanged 100) (interleave (snd (run_loop hw env w))))"
    and "fst (run_try hw env w) = Inr ()"
  using assms by (cases "run_loop hw env w"; simp add: run_def run_try_def Let_def)+

lemma progress_values_append [simp]:
  "progress_values (xs @ ys) = progress_values xs @ progress_values ys"
  by (induction xs rule: progress_values.induct) simp_all

lemma results_append [simp]: "results (xs @ ys) = results xs @ results ys"
  by (induction xs rule: results.induct) simp_all

lemma errors_append [simp]: "errors (xs @ ys) = errors xs @ errors ys"
  by (induction xs rule: errors.induct) simp_all

lemma channels_of_progress [simp]:
  "progress_values (map ProgressChanged ps) = ps"
  "results (map ProgressChanged ps) = []"
  "errors (map ProgressChanged ps) = []"
  by (induction ps) simp_all

lemma count_list_100: "\<forall>p \<in> set ps. p \<le> (95::int) \<Longrightarrow> count_list ps 100 = 0"
  by (induction ps) auto

lemma interleave_stays_cancelled:
  "is_cancelled (self s) \<Longrightarrow> is_cancelled (self (interleave s))"
  by (simp add: interleave_cancelled)

text \<open>
  C1: the progress values of a run are non-decreasing and lie in \<open>[0, 100]\<close>; those
  emitted inside the loop are at most 95; 100 is emitted exactly when the loop ends
  without an exception and the flag is not set when it is read after the loop, and then
  once, as the last value.
\<close>

theorem run_progress_values:
  "sorted (progress_values (signals hw env w))
   \<and> (\<forall>p \<in> set (progress_values (signals hw env w)). 0 \<le> p \<and> p \<le> 100)
   \<and> (\<forall>p \<in> set (progress_values (emitted (snd (run_loop hw env w)))). p \<le> 95)
   \<and> progress_values (signals hw env w) =
       progress_values (emitted (snd (run_loop hw env w))) @
       (if fst (run_loop hw env w) = Inr () \<and> \<not> is_cancelled (self (run hw env w))
        then [100] else [])
   \<and> count_list (progress_values (signals hw env w)) 100 =
       (if fst (run_loop hw env w) = Inr () \<and> \<not> is_cancelled (self (run hw env w))
        then 1 else 0)
   \<and> (100 \<in> set (progress_values (signals hw env w)) \<longrightarrow>
        last (progress_values (signals hw env w)) = 100)"
proof -
  obtain ps where e: "emitted (snd (run_loop hw env w)) = map ProgressChanged ps"
    and s: "sorted ps" and b: "\<forall>p \<in> set ps. 0 \<le> p \<and> p \<le> 95"
    using run_loop_emits by blast
  from b have b95: "\<forall>p \<in> set ps. p \<le> 95" by blast
  from b have b100: "\<forall>p \<in> set ps. p \<le> 100" by fastforce
  have c0: "count_list ps 100 = 0"
    by (rule count_list_100 [OF b95])
  then have n100: "100 \<notin> set ps"
    by (simp add: count_list_0_iff)
  let ?s = "snd (run_loop hw env w)"
  consider (err) x where "fst (run_loop hw env w) = Inl x"
    | (cancelled) "fst (run_loop hw env w) = Inr ()" "is_cancelled (self (interleave ?s))"
    | (completed) "fst (run_loop hw env w) = Inr ()" "\<not> is_cancelled (self (interleave ?s))"
    by (cases "fst (run_loop hw env w)") auto
  then show ?thesis
  proof cases
    case err
    show ?thesis
      using s b b100 n100 c0 by (simp add: signals_def run_error(1) [OF err] e err)
  next
    case cancelled
    show ?thesis
      using s b b100 n100 c0 cancelled(2)
      by (simp add: signals_def run_cancelled(1) [OF cancelled] e)
  next
    case completed
    have "sorted (ps @ [100])"
      using s b by (fastforce simp: sorted_append)
    then show ?thesis
      using b b100 c0 completed
      by (simp add: signals_def run_completed(1) [OF completed] e)
  qed
qed

theorem run_progress_values_witness:
  "signals (\<lambda>t tpl. Inr (Yield (1::nat) (Yield 2 StopIteration))) []
      (WorkerThread_init (ascii ''hello world'') ())
     = [ProgressChanged 9, ProgressChanged 18, ProgressChanged 100, ResultReady [1, 2]]
   \<and> sorted (progress_values (signals (\<lambda>t tpl. Inr (Yield (1::nat) (Yield 2 StopIteration))) []
      (WorkerThread_init (ascii ''hello world'') ())))
   \<and> count_list (progress_values (signals (\<lambda>t tpl. Inr (Yield (1::nat) (Yield 2 StopIteration))) []
      (WorkerThread_init (ascii ''hello world'') ()))) 100 = 1
   \<and> last (progress_values (signals (\<lambda>t tpl. Inr (Yield (1::nat) (Yield 2 StopIteration))) []
      (WorkerThread_init (ascii ''hello world'') ()))) = 100"
proof -
  have e: "signals (\<lambda>t tpl. Inr (Yield (1::nat) (Yield 2 StopIteration))) []
      (WorkerThread_init (ascii ''hello world'') ())
     = [ProgressChanged 9, ProgressChanged 18, ProgressChanged 100, ResultReady [1, 2]]"
    by code_simp
  have s: "sorted (progress_values (signals (\<lambda>t tpl. Inr (Yield (1::nat) (Yield 2 StopIteration))) []
      (WorkerThread_init (ascii ''hello world'') ())))"
    using run_progress_values [of "\<lambda>t tpl. Inr (Yield (1::nat) (Yield 2 StopIteration))" "[]"
        "WorkerThread_init (ascii ''hello world'') ()"]
    by (rule conjunct1)
  have c: "count_list (progress_values (signals (\<lambda>t tpl. Inr (Yield (1::nat) (Yield 2 StopIteration))) []
      (WorkerThread_init (ascii ''hello world'') ()))) 100 = 1"
    unfolding e by simp
  have l: "last (progress_values (signals (\<lambda>t tpl. Inr (Yield (1::nat) (Yield 2 StopIteration))) []
      (WorkerThread_init (ascii ''hello world'') ()))) = 100"
    unfolding e by simp
  show ?thesis
    using e s c l by (intro conjI)
qed

end
